theory Spec2Isabelle
  imports Complex_Main "HOL-Library.Product_Lexorder" "HOL-Library.List_Lexorder"
    "HOL-Library.Char_ord"
begin

section \<open>The embedding\<close>

text \<open>
  A shallow embedding of the time-series engine of the sun, moon and tide calendar:
  \<open>tides.py\<close> (\<open>pairwise\<close>, \<open>sine_interp\<close>, \<open>build_all_tides\<close>) and \<open>astro.py\<close>
  (\<open>copy_ephem_observer\<close>, \<open>utc_year_bounds\<close>, \<open>fill_in_heights\<close>,
  \<open>get_lunation_day\<close> and the two series built by \<open>Astro.__init__\<close>).

  Python floats, and the \<open>ephem.Date\<close> instants that are floats counting days, are
  idealised as real numbers: rounding error, infinities and overflow are not modelled. The
  one float that matters as such, the no-data marker, has its own constructor (see
  \<open>pyfloat\<close>). Every exception the code can raise is an element of \<open>error\<close>, returned as
  \<open>Inl\<close>; \<open>LibraryError\<close> stands for the error numpy raises for a zero step, whose
  class the source does not determine. The libraries pytz, ephem and pandas are not part of
  the repository: what the code asks of them is a parameter of the model.
\<close>

subsection \<open>Errors and rounding\<close>

datatype error = AssertionError | ValueError | IndexError | AttributeError
  | ZeroDivisionError | UnknownTimeZoneError | LibraryError

text \<open>
  Python's \<open>round\<close>: to the nearest integer, a tie going to the even one;
  \<open>round_nd x n\<close> is \<open>round(x, n)\<close>.
\<close>

definition py_round :: "real \<Rightarrow> int" where
  "py_round x =
     (let f = \<lfloor>x\<rfloor>; d = x - of_int f
      in if d < 1/2 then f else if 1/2 < d then f + 1 else if even f then f else f + 1)"

definition round_nd :: "real \<Rightarrow> nat \<Rightarrow> real" where
  "round_nd x n = of_int (py_round (x * 10 ^ n)) / 10 ^ n"

subsection \<open>The sine interpolator (tides.py, lines 21 to 95)\<close>

text \<open>
  \<open>numpy.linspace(start, stop, num)\<close>: \<open>num\<close> evenly spaced samples, the last one set to
  \<open>stop\<close>. \<open>half_wave\<close> is the array \<open>y\<close> of \<open>sine_interp\<close> (lines 74 to 84); the
  function itself adds the assertions on the resolution and on the result, and the optional
  removal of the last sample.
\<close>

definition linspace :: "real \<Rightarrow> real \<Rightarrow> nat \<Rightarrow> real list" where
  "linspace start stop num =
     (let step = (stop - start) / real (num - 1);
          y = map (\<lambda>i. real i * step + start) [0..<num]
      in if 1 < num then y[num - 1 := stop] else y)"

definition half_wave :: "real \<Rightarrow> real \<Rightarrow> nat \<Rightarrow> real list" where
  "half_wave h1 h2 n =
     map (\<lambda>x. (max h1 h2 - min h1 h2) / 2 * sin x + (max h1 h2 - (max h1 h2 - min h1 h2) / 2))
       (if h1 < h2 then linspace (- pi / 2) (pi / 2) n else linspace (pi / 2) ((3 / 2) * pi) n)"

definition sine_interp :: "real \<Rightarrow> real \<Rightarrow> int \<Rightarrow> bool \<Rightarrow> error + real list" where
  "sine_interp height1 height2 resolution remove_end =
     (if \<not> 2 < resolution then Inl AssertionError
      else
        let n = nat resolution;
            y = half_wave height1 height2 n
        in if round_nd (y ! 0) 8 \<noteq> round_nd height1 8 then Inl AssertionError
           else if length y \<noteq> n then Inl AssertionError
           else if round_nd (y ! (n - 1)) 8 \<noteq> round_nd height2 8 then Inl AssertionError
           else if remove_end then Inr (take (n - 1) y) else Inr y)"

subsection \<open>The tide curve (tides.py, lines 14 to 18 and 223 to 280)\<close>

text \<open>
  The frame \<open>raw_tides\<close> has a time index (instants in microseconds, with the name of
  its time zone if it has one) and named columns of magnitudes. \<open>interp_loop\<close> is the loop
  of lines 245 to 248 and \<open>tide_magnitudes\<close> the array \<open>alltides\<close> of line 253;
  \<open>times_loop\<close> is the loop of lines 258 to 266 and \<open>tide_times\<close> the array
  \<open>tidetimes\<close> of line 275. Dividing a \<open>timedelta64\<close> by an integer truncates, and
  \<open>numpy.arange\<close> has as many elements as the step fits into the interval, rounded up.
\<close>

definition pairwise :: "'a list \<Rightarrow> ('a \<times> 'a) list" where
  "pairwise s = zip s (tl s)"

record data_frame =
  index_tz :: "string option"
  index :: "int list"
  columns :: "(string \<times> real list) list"

fun interp_loop :: "(real \<times> real) list \<Rightarrow> int \<Rightarrow> real list list \<Rightarrow> error + real list list" where
  "interp_loop [] resolution alltides = Inr alltides"
| "interp_loop ((value_a, value_b) # ps) resolution alltides =
     (case sine_interp value_a value_b resolution True of
        Inl e \<Rightarrow> Inl e
      | Inr interps \<Rightarrow>
          if int (length interps) \<noteq> resolution - 1 then Inl AssertionError
          else interp_loop ps resolution (alltides @ [interps]))"

definition trunc_div :: "int \<Rightarrow> int \<Rightarrow> int" where
  "trunc_div a b = sgn a * sgn b * (\<bar>a\<bar> div \<bar>b\<bar>)"

definition arange :: "int \<Rightarrow> int \<Rightarrow> int \<Rightarrow> error + int list" where
  "arange a b step =
     (if step = 0 then Inl LibraryError
      else Inr (map (\<lambda>k. a + int k * step) [0..<nat (- ((a - b) div step))]))"

fun times_loop :: "(int \<times> int) list \<Rightarrow> int \<Rightarrow> int list list \<Rightarrow> error + int list list" where
  "times_loop [] resolution tidetimes = Inr tidetimes"
| "times_loop ((a, b) # ps) resolution tidetimes =
     (case arange a b (trunc_div (b - a) (resolution - 1)) of
        Inl e \<Rightarrow> Inl e
      | Inr interv0 \<Rightarrow>
          let interv = take (nat (resolution - 1)) interv0
          in if int (length interv) \<noteq> resolution - 1 then Inl AssertionError
             else times_loop ps resolution (tidetimes @ [interv]))"

definition tide_magnitudes :: "real list \<Rightarrow> int \<Rightarrow> error + real list" where
  "tide_magnitudes raw_values resolution =
     (case interp_loop (pairwise raw_values) resolution [] of
        Inl e \<Rightarrow> Inl e
      | Inr alltides \<Rightarrow>
          if raw_values = [] then Inl IndexError
          else Inr (concat alltides @ [last raw_values]))"

definition tide_times :: "int list \<Rightarrow> int \<Rightarrow> error + int list" where
  "tide_times raw_index resolution =
     (case times_loop (pairwise raw_index) resolution [] of
        Inl e \<Rightarrow> Inl e
      | Inr tidetimes \<Rightarrow>
          if raw_index = [] then Inl IndexError
          else if length (concat tidetimes) \<le> 1 then Inl IndexError
          else Inr (concat tidetimes @ [last raw_index]))"

definition build_all_tides :: "data_frame \<Rightarrow> int \<Rightarrow> string \<Rightarrow> error + (int \<times> real) list" where
  "build_all_tides raw_tides resolution use_column =
     (case index_tz raw_tides of
        None \<Rightarrow> Inl AttributeError
      | Some zone \<Rightarrow>
          if zone \<noteq> ''UTC'' then Inl AssertionError
          else if \<not> 2 < resolution then Inl AssertionError
          else
            (case map_of (columns raw_tides) use_column of
               None \<Rightarrow> Inl AttributeError
             | Some raw_values \<Rightarrow>
                 (case tide_magnitudes raw_values resolution of
                    Inl e \<Rightarrow> Inl e
                  | Inr alltides \<Rightarrow>
                      (case tide_times (index raw_tides) resolution of
                         Inl e \<Rightarrow> Inl e
                       | Inr tidetimes \<Rightarrow>
                           if length tidetimes \<noteq> length alltides then Inl AssertionError
                           else Inr (zip tidetimes alltides)))))"


subsection \<open>The ephemeris\<close>

text \<open>
  An \<open>ephem.Observer\<close> with the eight attributes that \<open>copy_ephem_observer\<close> copies. A
  body, once computed for an observer, gives its altitude and its rise, transit and set
  instants, each of the three being \<open>None\<close> when the body does not rise or set that day.
  The library is the record \<open>ephem\<close>: the observer that \<open>ephem.Observer()\<close> returns, the
  bodies it knows by name, and the next quarter phases after an instant.
\<close>

record observer =
  date :: real
  epoch :: real
  long :: real
  lat :: real
  elev :: real
  temp :: real
  pressure :: real
  horizon :: real

record body_model =
  alt :: "observer \<Rightarrow> real"
  rise_time :: "observer \<Rightarrow> real option"
  transit_time :: "observer \<Rightarrow> real option"
  set_time :: "observer \<Rightarrow> real option"

record ephem =
  fresh_observer :: observer
  body_named :: "string \<Rightarrow> body_model option"
  next_first_quarter_moon :: "real \<Rightarrow> real"
  next_full_moon :: "real \<Rightarrow> real"
  next_last_quarter_moon :: "real \<Rightarrow> real"

subsection \<open>The lunar cycle day (astro.py, lines 176 to 217)\<close>

text \<open>
  \<open>rescaled_day\<close> is the result returned inside each of the three quarter branches; a
  float division by zero raises \<open>ZeroDivisionError\<close>.
\<close>

definition rescaled_day :: "real \<Rightarrow> real \<Rightarrow> real \<Rightarrow> real \<Rightarrow> error + int" where
  "rescaled_day today last_new next_quarter scale =
     (if next_quarter - last_new = 0 then Inl ZeroDivisionError
      else Inr (py_round ((today - last_new) / (next_quarter - last_new) * scale)))"

definition get_lunation_day :: "ephem \<Rightarrow> real \<Rightarrow> real \<Rightarrow> real \<Rightarrow> int \<Rightarrow> error + int" where
  "get_lunation_day E today last_new next_new number_of_phase_ids =
     (let num = number_of_phase_ids - 1
      in if next_new - last_new = 0 then Inl ZeroDivisionError
         else
           let first_approx = py_round ((today - last_new) / (next_new - last_new) * of_int num);
               next_fq = next_first_quarter_moon E last_new;
               next_full = next_full_moon E last_new;
               next_lq = next_last_quarter_moon E last_new
           in if first_approx < \<lceil>of_int num / (4::real)\<rceil> \<and> today < next_fq
              then rescaled_day today last_new next_fq (of_int num / 4)
              else if first_approx < \<lceil>of_int num / (2::real)\<rceil> \<and> today < next_full
              then rescaled_day today last_new next_full (of_int num / 2)
              else if first_approx < \<lceil>of_int num * 3 / (4::real)\<rceil> \<and> today < next_lq
              then rescaled_day today last_new next_lq (of_int num * 3 / 4)
              else Inr first_approx)"

subsection \<open>The UTC bounds of a local year (astro.py, lines 44 to 104)\<close>



























subsection \<open>The rise, transit and set series (astro.py, lines 261 to 292)\<close>





subsection \<open>Filling in the heights (astro.py, lines 28 to 41 and 107 to 173)\<close>

text \<open>
  Observers are objects that the code shares and mutates, so they live in a store: a list
  of observers, an address being a position in it. \<open>ephem_Observer\<close> allocates a new
  object. The \<open>while\<close> loop of \<open>fill_in_heights\<close> does not end when the step is not
  positive and the stop lies ahead, so \<open>fill_loop\<close> is a partial function, \<open>None\<close>
  meaning that the loop runs forever. \<open>fill_in_heights\<close> returns the store with its
  result, also when it raises.
\<close>

datatype pyfloat = Finite real | NaN

type_synonym heap = "observer list"

definition ephem_Observer :: "ephem \<Rightarrow> heap \<Rightarrow> nat \<times> heap" where
  "ephem_Observer E h = (length h, h @ [fresh_observer E])"

definition copy_ephem_observer :: "ephem \<Rightarrow> nat \<Rightarrow> heap \<Rightarrow> nat \<times> heap" where
  "copy_ephem_observer E original_observer h =
     (let (new_observer, h) = ephem_Observer E h;
          h = h[new_observer := (h ! new_observer)\<lparr>date := date (h ! original_observer)\<rparr>];
          h = h[new_observer := (h ! new_observer)\<lparr>epoch := epoch (h ! original_observer)\<rparr>];
          h = h[new_observer := (h ! new_observer)\<lparr>long := long (h ! original_observer)\<rparr>];
          h = h[new_observer := (h ! new_observer)\<lparr>lat := lat (h ! original_observer)\<rparr>];
          h = h[new_observer := (h ! new_observer)\<lparr>elev := elev (h ! original_observer)\<rparr>];
          h = h[new_observer := (h ! new_observer)\<lparr>temp := temp (h ! original_observer)\<rparr>];
          h = h[new_observer := (h ! new_observer)\<lparr>pressure := pressure (h ! original_observer)\<rparr>];
          h = h[new_observer := (h ! new_observer)\<lparr>horizon := horizon (h ! original_observer)\<rparr>]
      in (new_observer, h))"

partial_function (option) fill_loop ::
  "body_model \<Rightarrow> real \<Rightarrow> real \<Rightarrow> nat \<Rightarrow> heap \<Rightarrow> real list \<Rightarrow> pyfloat list
     \<Rightarrow> (heap \<times> real list \<times> pyfloat list) option" where
  "fill_loop body stop step obs h the_times the_heights =
     (if round_nd (date (h ! obs)) 6 < round_nd stop 6
      then fill_loop body stop step obs
             (h[obs := (h ! obs)\<lparr>date := date (h ! obs) + step\<rparr>])
             (the_times @ [date (h ! obs)])
             (the_heights @ [Finite (sin (alt body (h ! obs)))])
      else Some (h, the_times, the_heights))"

definition fill_in_heights ::
  "ephem \<Rightarrow> real \<Rightarrow> real \<Rightarrow> real \<Rightarrow> nat \<Rightarrow> string \<Rightarrow> bool \<Rightarrow> heap
     \<Rightarrow> ((error + (real list \<times> pyfloat list)) \<times> heap) option" where
  "fill_in_heights E start stop step observe body_name append_NaN h =
     (let (obs, h) = copy_ephem_observer E observe h;
          h = h[obs := (h ! obs)\<lparr>date := start\<rparr>]
      in case body_named E body_name of
           None \<Rightarrow> Some (Inl AttributeError, h)
         | Some body \<Rightarrow>
             (case fill_loop body stop step obs h [] [] of
                None \<Rightarrow> None
              | Some (h, the_times, the_heights) \<Rightarrow>
                  let h = h[obs := (h ! obs)\<lparr>date := stop\<rparr>];
                      the_times = the_times @ [date (h ! obs)];
                      the_heights = the_heights @ [Finite (sin (alt body (h ! obs)))];
                      the_times = (if append_NaN then the_times @ [date (h ! obs) + step / 100] else the_times);
                      the_heights = (if append_NaN then the_heights @ [NaN] else the_heights)
                  in if length the_times \<noteq> length the_heights
                     then Some (Inl AssertionError, h)
                     else Some (Inr (the_times, the_heights), h)))"

subsection \<open>The altitude series (astro.py, lines 295 to 344)\<close>

text \<open>
  \<open>already_risen\<close> is the block of lines 303 to 312, which returns the first segment
  with the sets that remain; \<open>pairs_loop\<close> is the loop of lines 314 to 322 and
  \<open>trailing_rise\<close> the block of lines 326 to 334. The end of the year is compared as
  \<open>pd.Timestamp(end)\<close>, a conversion by pandas that is a parameter here.
  \<open>no_negative\<close> is the assignment of line 341 and \<open>select_label\<close> the selection of
  lines 300 and 301.
\<close>

definition ephem_minute :: real where
  "ephem_minute = 1 / 1440"

fun pairs_loop ::
  "ephem \<Rightarrow> real \<Rightarrow> nat \<Rightarrow> string \<Rightarrow> (real \<times> real) list \<Rightarrow> heap \<Rightarrow> real list \<Rightarrow> pyfloat list
     \<Rightarrow> (error + ((real list \<times> pyfloat list) \<times> heap)) option" where
  "pairs_loop E step observer name [] h alltimes allheights =
     Some (Inr ((alltimes, allheights), h))"
| "pairs_loop E step observer name ((rise_t, set_t) # ps) h alltimes allheights =
     (if \<not> rise_t < set_t then Some (Inl AssertionError)
      else
        (case fill_in_heights E rise_t set_t step observer name True h of
           None \<Rightarrow> None
         | Some (Inl e, h) \<Rightarrow> Some (Inl e)
         | Some (Inr (the_times, the_heights), h) \<Rightarrow>
             pairs_loop E step observer name ps h (alltimes @ the_times)
               (allheights @ the_heights)))"

definition already_risen ::
  "ephem \<Rightarrow> real \<Rightarrow> real \<Rightarrow> nat \<Rightarrow> string \<Rightarrow> real list \<Rightarrow> real list \<Rightarrow> heap
     \<Rightarrow> (error + (((real list \<times> pyfloat list) \<times> real list) \<times> heap)) option" where
  "already_risen E begin step observer name allrises allsets h =
     (case allsets of
        [] \<Rightarrow> Some (Inl IndexError)
      | first_set # _ \<Rightarrow>
          (case allrises of
             [] \<Rightarrow> Some (Inl IndexError)
           | first_rise # _ \<Rightarrow>
               if first_set < first_rise
               then
                 (case fill_in_heights E begin first_set step observer name True h of
                    None \<Rightarrow> None
                  | Some (Inl e, h) \<Rightarrow> Some (Inl e)
                  | Some (Inr (the_times, the_heights), h) \<Rightarrow>
                      Some (Inr (((the_times, the_heights), drop 1 allsets), h)))
               else Some (Inr ((([], []), allsets), h))))"

definition trailing_rise ::
  "ephem \<Rightarrow> (real \<Rightarrow> real) \<Rightarrow> real \<Rightarrow> real \<Rightarrow> nat \<Rightarrow> string \<Rightarrow> real list \<Rightarrow> real list \<Rightarrow> heap
     \<Rightarrow> real list \<Rightarrow> pyfloat list \<Rightarrow> (error + ((real list \<times> pyfloat list) \<times> heap)) option" where
  "trailing_rise E pd_Timestamp end step observer name allrises allsets h alltimes allheights =
     (let have_trailing_rise_time =
            (length allsets < length allrises \<and> last allrises < pd_Timestamp end)
      in if have_trailing_rise_time
         then
           (case fill_in_heights E (last allrises) end step observer name True h of
              None \<Rightarrow> None
            | Some (Inl e, h) \<Rightarrow> Some (Inl e)
            | Some (Inr (the_times, the_heights), h) \<Rightarrow>
                Some (Inr ((alltimes @ the_times, allheights @ the_heights), h)))
         else Some (Inr ((alltimes, allheights), h)))"

definition no_negative :: "pyfloat \<Rightarrow> pyfloat" where
  "no_negative x = (case x of Finite v \<Rightarrow> if v < 0 then NaN else Finite v | NaN \<Rightarrow> NaN)"

definition select_label :: "string \<Rightarrow> (real \<times> string) list \<Rightarrow> real list" where
  "select_label l r_n_s = map fst (filter (\<lambda>e. snd e = l) r_n_s)"

definition heights_series ::
  "ephem \<Rightarrow> (real \<Rightarrow> real) \<Rightarrow> real \<Rightarrow> real \<Rightarrow> nat \<Rightarrow> string \<Rightarrow> (real \<times> string) list \<Rightarrow> heap
     \<Rightarrow> (error + ((real \<times> pyfloat) list \<times> heap)) option" where
  "heights_series E pd_Timestamp begin end observer name r_n_s h =
     (let step = 10 * ephem_minute;
          allrises = select_label ''rise'' r_n_s;
          allsets = select_label ''set'' r_n_s
      in case already_risen E begin step observer name allrises allsets h of
           None \<Rightarrow> None
         | Some (Inl e) \<Rightarrow> Some (Inl e)
         | Some (Inr (((alltimes, allheights), allsets), h)) \<Rightarrow>
             (case pairs_loop E step observer name (zip allrises allsets) h alltimes allheights of
                None \<Rightarrow> None
              | Some (Inl e) \<Rightarrow> Some (Inl e)
              | Some (Inr ((alltimes, allheights), h)) \<Rightarrow>
                  (case trailing_rise E pd_Timestamp end step observer name allrises allsets h
                          alltimes allheights of
                     None \<Rightarrow> None
                   | Some (Inl e) \<Rightarrow> Some (Inl e)
                   | Some (Inr ((alltimes, allheights), h)) \<Rightarrow>
                       if length allheights \<noteq> length alltimes then Some (Inl AssertionError)
                       else Some (Inr (zip alltimes (map no_negative allheights), h)))))"

text \<open>
  A list of runs of samples, each followed by one no-data marker.
\<close>

definition marked :: "pyfloat list list \<Rightarrow> pyfloat list" where
  "marked chunks = concat (map (\<lambda>c. c @ [NaN]) chunks)"

subsection \<open>Sample data\<close>

text \<open>
  An observer, a body that never rises or sets, an ephemeris that knows this body as the
  Sun, and a year of three events that starts with the body above the horizon.
\<close>

definition origin_observer :: observer where
  "origin_observer =
     \<lparr>date = 0, epoch = 0, long = 0, lat = 0, elev = 0, temp = 0, pressure = 0, horizon = 0\<rparr>"

definition polar_body :: body_model where
  "polar_body =
     \<lparr>alt = (\<lambda>ob. 0), rise_time = (\<lambda>ob. None), transit_time = (\<lambda>ob. None),
      set_time = (\<lambda>ob. None)\<rparr>"

definition sample_ephem :: ephem where
  "sample_ephem =
     \<lparr>fresh_observer = origin_observer,
      body_named = (\<lambda>n. if n = ''Sun'' then Some polar_body else None),
      next_first_quarter_moon = (\<lambda>t. t + 7),
      next_full_moon = (\<lambda>t. t + 15),
      next_last_quarter_moon = (\<lambda>t. t + 22)\<rparr>"

definition sample_events :: "(real \<times> string) list" where
  "sample_events = [(1, ''set''), (2, ''rise''), (3, ''set'')]"

section \<open>The sine interpolator\<close>

lemma length_linspace: "length (linspace a b n) = n"
  by (simp add: linspace_def Let_def)

lemma linspace_nth:
  assumes "1 < n" and "i < n"
  shows "linspace a b n ! i = real i * ((b - a) / real (n - 1)) + a"
proof (cases "i = n - 1")
  case True
  have "real (n - 1) * ((b - a) / real (n - 1)) = b - a" using assms by simp
  then show ?thesis using assms True by (simp add: linspace_def Let_def)
next
  case False
  then show ?thesis using assms by (simp add: linspace_def Let_def)
qed




lemma half_wave_first:
  assumes "1 < n"
  shows "half_wave h1 h2 n ! 0 = h1"
  using assms by (simp add: half_wave_def length_linspace linspace_nth max_def min_def field_simps)

lemma linspace_last:
  assumes "1 < n"
  shows "linspace a b n ! (n - 1) = b"
  using assms by (simp add: linspace_def Let_def)

lemma half_wave_last:
  assumes "1 < n"
  shows "half_wave h1 h2 n ! (n - 1) = h2"
proof -
  have s: "sin (3 / 2 * pi) = -1" by (rule sin_3over2_pi)
  have m: "n - 1 < n" using assms by simp
  show ?thesis
  proof (cases "h1 < h2")
    case True
    then show ?thesis
      using m by (simp add: half_wave_def length_linspace linspace_last[OF assms] max_def
          min_def field_simps del: One_nat_def)
  next
    case False
    then show ?thesis
      using m s by (simp add: half_wave_def length_linspace linspace_last[OF assms] max_def
          min_def del: One_nat_def) (simp add: field_simps)
  qed
qed

lemma length_half_wave: "length (half_wave h1 h2 n) = n"
  by (simp add: half_wave_def length_linspace)




lemma sine_interp_returns:
  assumes "2 < resolution"
  shows "sine_interp h1 h2 resolution remove_end =
           Inr (if remove_end then take (nat resolution - 1) (half_wave h1 h2 (nat resolution))
                else half_wave h1 h2 (nat resolution))"
proof -
  have n: "1 < nat resolution" using assms by simp
  show ?thesis
    using assms by (simp add: sine_interp_def Let_def half_wave_first[OF n] half_wave_last[OF n]
        length_half_wave del: One_nat_def)
qed



section \<open>The tide curve\<close>

lemma interp_loop_ok:
  assumes "2 < r"
  shows "\<exists>res. interp_loop ps r acc = Inr res \<and> length res = length acc + length ps
           \<and> (\<forall>x \<in> set res. x \<in> set acc \<or> int (length x) = r - 1)"
proof (induction ps arbitrary: acc)
  case Nil
  show ?case by simp
next
  case (Cons p ps)
  obtain a b where p: "p = (a, b)" by (cases p)
  let ?i = "take (nat r - 1) (half_wave a b (nat r))"
  have s: "sine_interp a b r True = Inr ?i"
    using sine_interp_returns[OF assms, of a b True] by simp
  have l: "int (length ?i) = r - 1" using assms by (simp add: length_half_wave)
  from Cons.IH[of "acc @ [?i]"] obtain res where
    res: "interp_loop ps r (acc @ [?i]) = Inr res" "length res = length (acc @ [?i]) + length ps"
      "\<forall>x \<in> set res. x \<in> set (acc @ [?i]) \<or> int (length x) = r - 1" by blast
  have "interp_loop (p # ps) r acc = Inr res" using p s l res(1) by simp
  moreover have "length res = length acc + length (p # ps)" using res(2) by simp
  moreover have "\<forall>x \<in> set res. x \<in> set acc \<or> int (length x) = r - 1"
    using res(3) l by auto
  ultimately show ?case by blast
qed

lemma interp_loop_lengths:
  "interp_loop ps r acc = Inr res \<Longrightarrow>
     length res = length acc + length ps \<and> (\<forall>x \<in> set res. x \<in> set acc \<or> int (length x) = r - 1)"
proof (induction ps arbitrary: acc)
  case Nil
  then show ?case by simp
next
  case (Cons p ps)
  obtain a b where p: "p = (a, b)" by (cases p)
  from Cons.prems p obtain i where
    i: "sine_interp a b r True = Inr i" "int (length i) = r - 1"
      "interp_loop ps r (acc @ [i]) = Inr res"
    by (auto split: sum.splits if_splits)
  from Cons.IH[OF i(3)] i(2) show ?case by auto
qed

lemma times_loop_lengths:
  "times_loop ps r acc = Inr res \<Longrightarrow>
     length res = length acc + length ps \<and> (\<forall>x \<in> set res. x \<in> set acc \<or> int (length x) = r - 1)"
proof (induction ps arbitrary: acc)
  case Nil
  then show ?case by simp
next
  case (Cons p ps)
  obtain a b where p: "p = (a, b)" by (cases p)
  from Cons.prems p obtain iv where iv: "arange a b (trunc_div (b - a) (r - 1)) = Inr iv"
    by (auto split: sum.splits)
  let ?i = "take (nat (r - 1)) iv"
  from Cons.prems p iv have
    i: "int (length ?i) = r - 1" "times_loop ps r (acc @ [?i]) = Inr res"
    by (auto simp: Let_def split: if_splits)
  from Cons.IH[OF i(2)] i(1) show ?case by auto
qed

lemma length_concat_uniform:
  assumes "\<forall>x \<in> set xss. length x = k"
  shows "length (concat xss) = length xss * k"
  using assms by (induction xss) simp_all




lemma length_pairwise: "length (pairwise xs) = length xs - 1"
  by (simp add: pairwise_def)

lemma interp_loop_total_length:
  assumes "interp_loop ps r [] = Inr res" and "2 < r"
  shows "length (concat res) = length ps * nat (r - 1)"
proof -
  from interp_loop_lengths[OF assms(1)] have
    l: "length res = length ps" and u: "\<forall>x \<in> set res. int (length x) = r - 1" by simp_all
  from u have "\<forall>x \<in> set res. length x = nat (r - 1)" by auto
  from length_concat_uniform[OF this] l show ?thesis by simp
qed

lemma times_loop_total_length:
  assumes "times_loop ps r [] = Inr res" and "2 < r"
  shows "length (concat res) = length ps * nat (r - 1)"
proof -
  from times_loop_lengths[OF assms(1)] have
    l: "length res = length ps" and u: "\<forall>x \<in> set res. int (length x) = r - 1" by simp_all
  from u have "\<forall>x \<in> set res. length x = nat (r - 1)" by auto
  from length_concat_uniform[OF this] l show ?thesis by simp
qed

lemma tide_magnitudes_returns:
  assumes "2 < r" and "vals \<noteq> []"
  shows "\<exists>m. tide_magnitudes vals r = Inr m \<and> length m = (length vals - 1) * nat (r - 1) + 1"
proof -
  from interp_loop_ok[OF assms(1), of "pairwise vals" "[]"] obtain a0 where
    a0: "interp_loop (pairwise vals) r [] = Inr a0" by blast
  have "length (concat a0) = (length vals - 1) * nat (r - 1)"
    using interp_loop_total_length[OF a0 assms(1)] by (simp add: length_pairwise)
  then show ?thesis using a0 assms(2) by (simp add: tide_magnitudes_def)
qed

lemma tide_times_InrD:
  assumes "tide_times idx r = Inr t" and "2 < r"
  shows "length t = (length idx - 1) * nat (r - 1) + 1" and "2 \<le> length idx"
proof -
  from assms(1) obtain t0 where
    t0: "times_loop (pairwise idx) r [] = Inr t0" and
    lt: "1 < length (concat t0)" and t: "t = concat t0 @ [last idx]"
    by (auto simp: tide_times_def split: sum.splits if_splits)
  have lt0: "length (concat t0) = (length idx - 1) * nat (r - 1)"
    using times_loop_total_length[OF t0 assms(2)] by (simp add: length_pairwise)
  show "length t = (length idx - 1) * nat (r - 1) + 1" using t lt0 by simp
  show "2 \<le> length idx"
  proof (rule ccontr)
    assume "\<not> 2 \<le> length idx"
    then have "length idx - 1 = 0" by simp
    then show False using lt lt0 by simp
  qed
qed


lemma tide_times_short:
  assumes "length idx < 2"
  shows "tide_times idx r = Inl IndexError"
proof -
  have "pairwise idx = []" using assms by (cases idx) (auto simp: pairwise_def)
  then show ?thesis by (simp add: tide_times_def)
qed

lemma build_all_tides_InrD:
  assumes "build_all_tides raw_tides r c = Inr s"
  shows "2 < r \<and> length s = (length (index raw_tides) - 1) * nat (r - 1) + 1
           \<and> 2 \<le> length (index raw_tides)"
proof -
  from assms have r: "2 < r"
    by (auto simp: build_all_tides_def split: option.splits if_splits)
  from assms obtain vals m t where
    v: "map_of (columns raw_tides) c = Some vals" and
    m: "tide_magnitudes vals r = Inr m" and
    t: "tide_times (index raw_tides) r = Inr t" and
    eq: "length t = length m" and s: "s = zip t m"
    by (auto simp: build_all_tides_def split: option.splits if_splits sum.splits)
  from tide_times_InrD[OF t r] s eq r show ?thesis by simp
qed





text \<open>
  Claim C10: \<open>build_all_tides\<close> produces a series only for an input of at least two rows.
  With fewer than two rows every call ends in an error, and when the preconditions on the
  time zone, the resolution and the column hold, that error is the out-of-range index
  access (\<open>raw_values[-1]\<close> on no rows, \<open>tidetimes[1]\<close> on one row).
\<close>

theorem build_all_tides_needs_two_rows:
  assumes "length (index raw_tides) < 2"
  shows "(\<exists>e. build_all_tides raw_tides r c = Inl e) \<and>
         (index_tz raw_tides = Some ''UTC'' \<and> 2 < r \<and> map_of (columns raw_tides) c \<noteq> None \<longrightarrow>
            build_all_tides raw_tides r c = Inl IndexError)"
proof (intro conjI impI)
  show "\<exists>e. build_all_tides raw_tides r c = Inl e"
  proof (cases "build_all_tides raw_tides r c")
    case (Inl e)
    then show ?thesis by blast
  next
    case (Inr s)
    from build_all_tides_InrD[OF Inr] assms show ?thesis by simp
  qed
next
  assume pre: "index_tz raw_tides = Some ''UTC'' \<and> 2 < r \<and> map_of (columns raw_tides) c \<noteq> None"
  then obtain vals where v: "map_of (columns raw_tides) c = Some vals" by auto
  from pre have r: "2 < r" by simp
  show "build_all_tides raw_tides r c = Inl IndexError"
  proof (cases "vals = []")
    case True
    then have "tide_magnitudes vals r = Inl IndexError"
      by (simp add: tide_magnitudes_def pairwise_def)
    then show ?thesis using pre v by (simp add: build_all_tides_def)
  next
    case False
    from tide_magnitudes_returns[OF r False] obtain m where "tide_magnitudes vals r = Inr m"
      by blast
    then show ?thesis
      using pre v tide_times_short[OF assms] by (simp add: build_all_tides_def)
  qed
qed

theorem build_all_tides_needs_two_rows_witness:
  "length (index \<lparr>index_tz = Some ''UTC'', index = [0], columns = [(''ft'', [1])]\<rparr>) < 2 \<and>
   build_all_tides \<lparr>index_tz = Some ''UTC'', index = [0], columns = [(''ft'', [1])]\<rparr> 3 ''ft''
     = Inl IndexError"
  using build_all_tides_needs_two_rows
    [of "\<lparr>index_tz = Some ''UTC'', index = [0], columns = [(''ft'', [1])]\<rparr>" 3 "''ft''"]
  by simp

section \<open>The lunar cycle day\<close>

lemma py_round_zero: "py_round 0 = 0"
  by (simp add: py_round_def)

lemma py_round_nonneg:
  assumes "0 \<le> x"
  shows "0 \<le> py_round x"
proof -
  have "0 \<le> \<lfloor>x\<rfloor>" using assms by simp
  then show ?thesis by (simp add: py_round_def Let_def)
qed

lemma py_round_le_int:
  assumes "x \<le> of_int m"
  shows "py_round x \<le> m"
proof (cases "\<lfloor>x\<rfloor> = m")
  case True
  then have "of_int m \<le> x" by (metis of_int_floor_le)
  with assms have "x = of_int m" by simp
  then show ?thesis by (simp add: py_round_def)
next
  case False
  moreover have "\<lfloor>x\<rfloor> \<le> m" using assms by (simp add: floor_le_iff)
  ultimately have "\<lfloor>x\<rfloor> + 1 \<le> m" by simp
  then show ?thesis by (simp add: py_round_def Let_def)
qed

lemma rescaled_day_range:
  assumes "last_new \<le> today" and "today < next_quarter" and "0 \<le> scale"
    and "scale \<le> of_int m"
  shows "\<exists>d. rescaled_day today last_new next_quarter scale = Inr d \<and> 0 \<le> d \<and> d \<le> m
           \<and> (today = last_new \<longrightarrow> d = 0)"
proof -
  let ?f = "(today - last_new) / (next_quarter - last_new)"
  have pos: "0 < next_quarter - last_new" using assms by simp
  have f0: "0 \<le> ?f" using assms pos by simp
  have f1: "?f \<le> 1" using assms pos by simp
  have lo: "0 \<le> ?f * scale" using f0 assms(3) by (rule mult_nonneg_nonneg)
  have "?f * scale \<le> 1 * scale" using f1 assms(3) by (intro mult_right_mono)
  then have hi: "?f * scale \<le> of_int m" using assms(4) by simp
  have r: "rescaled_day today last_new next_quarter scale = Inr (py_round (?f * scale))"
    using pos by (simp add: rescaled_day_def)
  show ?thesis
    using r py_round_nonneg[OF lo] py_round_le_int[OF hi] by (auto simp: py_round_zero)
qed

text \<open>
  Claim C4: for every lunation with \<open>last_new \<le> today \<le> next_new\<close> and
  \<open>last_new < next_new\<close>, \<open>get_lunation_day\<close> returns an integer between 0 and
  \<open>number_of_phase_ids - 1\<close>, and it returns 0 when \<open>today\<close> is the new moon
  \<open>last_new\<close>. The count of phase identifiers is at least 1, so that the range is not
  empty; the quarter instants of the ephemeris are arbitrary.
\<close>

theorem get_lunation_day_range:
  assumes "last_new \<le> today" and "today \<le> next_new" and "last_new < next_new"
    and "1 \<le> number_of_phase_ids"
  shows "\<exists>d. get_lunation_day E today last_new next_new number_of_phase_ids = Inr d
           \<and> 0 \<le> d \<and> d \<le> number_of_phase_ids - 1 \<and> (today = last_new \<longrightarrow> d = 0)"
proof -
  let ?num = "number_of_phase_ids - 1"
  let ?n = "of_int ?num :: real"
  let ?f = "(today - last_new) / (next_new - last_new)"
  let ?fa = "py_round (?f * ?n)"
  have pos: "0 < next_new - last_new" using assms by simp
  have n0: "0 \<le> ?n" using assms(4) by simp
  have f0: "0 \<le> ?f" using assms pos by simp
  have f1: "?f \<le> 1" using assms pos by simp
  have lo: "0 \<le> ?f * ?n" using f0 n0 by (rule mult_nonneg_nonneg)
  have "?f * ?n \<le> 1 * ?n" using f1 n0 by (intro mult_right_mono)
  then have hi: "?f * ?n \<le> of_int ?num" by simp
  have fa: "0 \<le> ?fa" "?fa \<le> ?num" "today = last_new \<longrightarrow> ?fa = 0"
    using py_round_nonneg[OF lo] py_round_le_int[OF hi] by (auto simp: py_round_zero)
  have s1: "0 \<le> ?n / 4" "?n / 4 \<le> of_int ?num" using n0 by simp_all
  have s2: "0 \<le> ?n / 2" "?n / 2 \<le> of_int ?num" using n0 by simp_all
  have s3: "0 \<le> ?n * 3 / 4" "?n * 3 / 4 \<le> of_int ?num" using n0 by simp_all
  note q1 = rescaled_day_range[OF assms(1) _ s1, of "next_first_quarter_moon E last_new"]
  note q2 = rescaled_day_range[OF assms(1) _ s2, of "next_full_moon E last_new"]
  note q3 = rescaled_day_range[OF assms(1) _ s3, of "next_last_quarter_moon E last_new"]
  show ?thesis
    using pos fa q1 q2 q3 by (auto simp: get_lunation_day_def Let_def)
qed

theorem get_lunation_day_range_witness:
  "(0::real) \<le> 0 \<and> (0::real) \<le> 30 \<and> (0::real) < 30 \<and> (1::int) \<le> 28 \<and>
   get_lunation_day sample_ephem 0 0 30 28 = Inr 0 \<and>
   (\<exists>d. get_lunation_day sample_ephem 10 0 30 28 = Inr d \<and> 0 \<le> d \<and> d \<le> 27)"
  using get_lunation_day_range[of 0 0 30 28 sample_ephem]
    get_lunation_day_range[of 0 10 30 28 sample_ephem]
  by auto

section \<open>The UTC bounds of a local year\<close>
























section \<open>The daily events\<close>







section \<open>Filling in the heights\<close>

lemma copy_ephem_observer_frame:
  assumes "copy_ephem_observer E a h = (b, h')"
  shows "b = length h" and "length h' = Suc (length h)" and "take (length h) h' = h"
  using assms by (auto simp: copy_ephem_observer_def ephem_Observer_def Let_def)

lemma fill_loop_frame_aux:
  assumes "fill_loop body stop step obs h ts hs = Some r"
  shows "length (fst r) = length h \<and> (\<forall>a. a \<noteq> obs \<longrightarrow> fst r ! a = h ! a)
       \<and> (\<exists>ts2 hs2. fst (snd r) = ts @ ts2 \<and> snd (snd r) = hs @ hs2
            \<and> length ts2 = length hs2 \<and> NaN \<notin> set hs2)"
proof (rule fill_loop.raw_induct[where P = "\<lambda>body stop step obs h ts hs r.
    length (fst r) = length h \<and> (\<forall>a. a \<noteq> obs \<longrightarrow> fst r ! a = h ! a)
       \<and> (\<exists>ts2 hs2. fst (snd r) = ts @ ts2 \<and> snd (snd r) = hs @ hs2
            \<and> length ts2 = length hs2 \<and> NaN \<notin> set hs2)", OF _ assms], goal_cases)
  case (1 self body stop step obs h ts hs r)
  show ?case
  proof (cases "round_nd (date (h ! obs)) 6 < round_nd stop 6")
    case True
    with 1(2) have "self body stop step obs
             (h[obs := (h ! obs)\<lparr>date := date (h ! obs) + step\<rparr>])
             (ts @ [date (h ! obs)])
             (hs @ [Finite (sin (alt body (h ! obs)))]) = Some r" by simp
    from 1(1)[OF this] show ?thesis by auto
  next
    case False
    with 1(2) show ?thesis by auto
  qed
qed

lemma fill_loop_frame:
  assumes "fill_loop body stop step obs h ts hs = Some (h', ts', hs')"
  shows "length h' = length h" and "\<And>a. a \<noteq> obs \<Longrightarrow> h' ! a = h ! a"
    and "\<exists>ts2 hs2. ts' = ts @ ts2 \<and> hs' = hs @ hs2 \<and> length ts2 = length hs2 \<and> NaN \<notin> set hs2"
  using fill_loop_frame_aux[OF assms] by simp_all

lemma py_round_mono:
  assumes "x \<le> y"
  shows "py_round x \<le> py_round y"
proof (cases "\<lfloor>x\<rfloor> = \<lfloor>y\<rfloor>")
  case True
  then have "x - of_int \<lfloor>x\<rfloor> \<le> y - of_int \<lfloor>y\<rfloor>" using assms by simp
  then show ?thesis using True by (auto simp: py_round_def Let_def)
next
  case False
  moreover have "\<lfloor>x\<rfloor> \<le> \<lfloor>y\<rfloor>" using assms by (rule floor_mono)
  ultimately have "\<lfloor>x\<rfloor> + 1 \<le> \<lfloor>y\<rfloor>" by simp
  moreover have "py_round x \<le> \<lfloor>x\<rfloor> + 1" by (simp add: py_round_def Let_def)
  moreover have "\<lfloor>y\<rfloor> \<le> py_round y" by (simp add: py_round_def Let_def)
  ultimately show ?thesis by linarith
qed

lemma round_nd_mono:
  assumes "x \<le> y"
  shows "round_nd x n \<le> round_nd y n"
proof -
  have "x * 10 ^ n \<le> y * 10 ^ n" using assms by (intro mult_right_mono) simp_all
  from py_round_mono[OF this] show ?thesis by (simp add: round_nd_def divide_right_mono)
qed

lemma fill_loop_terminates:
  assumes "0 < step" and "obs < length h"
  shows "\<exists>r. fill_loop body stop step obs h ts hs = Some r"
  using assms(2)
proof (induction "nat \<lceil>(stop - date (h ! obs)) / step\<rceil>" arbitrary: h ts hs)
  case 0
  then have "(stop - date (h ! obs)) / step \<le> 0" by (simp add: ceiling_le_zero)
  then have "stop \<le> date (h ! obs)" using assms(1) by (simp add: divide_le_0_iff)
  from round_nd_mono[OF this, of 6] have "\<not> round_nd (date (h ! obs)) 6 < round_nd stop 6" by simp
  then have "fill_loop body stop step obs h ts hs = Some (h, ts, hs)"
    by (subst fill_loop.simps) simp
  then show ?case by (intro exI[of _ "(h, ts, hs)"])
next
  case (Suc n)
  show ?case
  proof (cases "round_nd (date (h ! obs)) 6 < round_nd stop 6")
    case False
    then have "fill_loop body stop step obs h ts hs = Some (h, ts, hs)"
      by (subst fill_loop.simps) simp
    then show ?thesis by (intro exI[of _ "(h, ts, hs)"])
  next
    case True
    let ?h = "h[obs := (h ! obs)\<lparr>date := date (h ! obs) + step\<rparr>]"
    have d: "date (?h ! obs) = date (h ! obs) + step" using Suc.prems by simp
    have "(stop - (date (h ! obs) + step)) / step = (stop - date (h ! obs)) / step - 1"
      using assms(1) by (simp add: field_simps)
    then have "(stop - date (?h ! obs)) / step = (stop - date (h ! obs)) / step - 1"
      by (simp only: d)
    then have "\<lceil>(stop - date (?h ! obs)) / step\<rceil> = \<lceil>(stop - date (h ! obs)) / step\<rceil> - 1"
      by (simp only: ceiling_diff_one)
    then have n: "n = nat \<lceil>(stop - date (?h ! obs)) / step\<rceil>" using Suc.hyps(2) by simp
    have l: "obs < length ?h" using Suc.prems by simp
    from Suc.hyps(1)[OF n l] obtain r where
      r: "fill_loop body stop step obs ?h (ts @ [date (h ! obs)])
         (hs @ [Finite (sin (alt body (h ! obs)))]) = Some r" by blast
    have "fill_loop body stop step obs h ts hs =
            fill_loop body stop step obs ?h (ts @ [date (h ! obs)])
              (hs @ [Finite (sin (alt body (h ! obs)))])"
      using True by (subst fill_loop.simps) simp
    with r show ?thesis by (intro exI[of _ r]) simp
  qed
qed

lemma copy_ephem_observer_shape:
  "\<exists>c. copy_ephem_observer E a h = (length h, h @ [c])"
  by (simp add: copy_ephem_observer_def ephem_Observer_def Let_def)

lemma take_eq_if_nth_eq:
  assumes "length h' = Suc (length h)" and "\<And>a. a < length h \<Longrightarrow> h' ! a = h ! a"
  shows "take (length h) h' = h"
  using assms by (intro nth_equalityI) simp_all

lemma fill_in_heights_InrD:
  assumes "fill_in_heights E start stop step observe name apn h = Some (Inr (ts, hs), h')"
  shows "length h' = Suc (length h)" and "take (length h) h' = h" and "length ts = length hs"
    and "apn \<Longrightarrow> \<exists>c. hs = c @ [NaN] \<and> c \<noteq> [] \<and> NaN \<notin> set c"
    and "apn \<Longrightarrow> \<exists>ts0. ts = ts0 @ [stop, stop + step / 100]"
proof -
  obtain c where c: "copy_ephem_observer E observe h = (length h, h @ [c])"
    using copy_ephem_observer_shape by blast
  let ?h1 = "h @ [c\<lparr>date := start\<rparr>]"
  from assms c obtain body where b: "body_named E name = Some body"
    by (auto simp: fill_in_heights_def Let_def split: option.splits)
  from assms c b obtain h2 ts2 hs2 where
    l: "fill_loop body stop step (length h) ?h1 [] [] = Some (h2, ts2, hs2)"
    by (auto simp: fill_in_heights_def Let_def split: option.splits)
  note f = fill_loop_frame[OF l]
  let ?h3 = "h2[length h := (h2 ! length h)\<lparr>date := stop\<rparr>]"
  let ?last = "Finite (sin (alt body (?h3 ! length h)))"
  from assms c b l have r:
    "h' = ?h3"
    "ts = (if apn then ts2 @ [date (?h3 ! length h)] @ [date (?h3 ! length h) + step / 100]
           else ts2 @ [date (?h3 ! length h)])"
    "hs = (if apn then hs2 @ [?last] @ [NaN] else hs2 @ [?last])"
    by (auto simp: fill_in_heights_def Let_def split: if_splits)
  show len: "length h' = Suc (length h)" using r(1) f(1) by simp
  have "h' ! a = h ! a" if "a < length h" for a
    using that r(1) f(2)[of a] by (simp add: nth_append)
  then show "take (length h) h' = h" using len by (intro take_eq_if_nth_eq) simp_all
  from f(3) have same: "length ts2 = length hs2" and nn: "NaN \<notin> set hs2" by auto
  show "length ts = length hs" using r(2,3) same by simp
  show "\<exists>c. hs = c @ [NaN] \<and> c \<noteq> [] \<and> NaN \<notin> set c" if apn
    using that r(3) nn by (intro exI[of _ "hs2 @ [?last]"]) simp
  have "length h < length h2" using f(1) by simp
  then have "date (?h3 ! length h) = stop" by simp
  then show "\<exists>ts0. ts = ts0 @ [stop, stop + step / 100]" if apn
    using that r(2) by (intro exI[of _ ts2]) simp
qed

lemma fill_in_heights_returns:
  assumes "0 < step" and "body_named E name = Some body"
  shows "\<exists>ts hs h'. fill_in_heights E start stop step observe name apn h
           = Some (Inr (ts, hs), h')"
proof -
  obtain c where c: "copy_ephem_observer E observe h = (length h, h @ [c])"
    using copy_ephem_observer_shape by blast
  let ?h1 = "h @ [c\<lparr>date := start\<rparr>]"
  have "length h < length ?h1" by simp
  from fill_loop_terminates[OF assms(1) this, of body stop "[]" "[]"] obtain r where
    r: "fill_loop body stop step (length h) ?h1 [] [] = Some r" by blast
  obtain h2 ts2 hs2 where r2: "r = (h2, ts2, hs2)" by (cases r)
  from fill_loop_frame(3)[OF r[unfolded r2]] have "length ts2 = length hs2" by auto
  then show ?thesis
    using c assms(2) r r2 by (simp add: fill_in_heights_def Let_def)
qed

lemma fill_in_heights_frame_aux:
  assumes "fill_in_heights E start stop step observe name apn h = Some (out, h')"
  shows "length h' = Suc (length h) \<and> take (length h) h' = h"
proof -
  obtain c where c: "copy_ephem_observer E observe h = (length h, h @ [c])"
    using copy_ephem_observer_shape by blast
  show ?thesis
  proof (cases "body_named E name")
    case None
    with assms c have "h' = h @ [c\<lparr>date := start\<rparr>]"
      by (simp add: fill_in_heights_def Let_def)
    then show ?thesis by simp
  next
    case (Some body)
    from assms c Some obtain h2 ts2 hs2 where
      l: "fill_loop body stop step (length h) (h @ [c\<lparr>date := start\<rparr>]) [] []
            = Some (h2, ts2, hs2)"
      by (auto simp: fill_in_heights_def Let_def split: option.splits)
    note f = fill_loop_frame[OF l]
    from assms c Some l have r: "h' = h2[length h := (h2 ! length h)\<lparr>date := stop\<rparr>]"
      by (auto simp: fill_in_heights_def Let_def split: if_splits)
    have len: "length h' = Suc (length h)" using r f(1) by simp
    have "h' ! a = h ! a" if "a < length h" for a
      using that r f(2)[of a] by (simp add: nth_append)
    then have "take (length h) h' = h" using len by (intro take_eq_if_nth_eq) simp_all
    with len show ?thesis by simp
  qed
qed

lemma fill_in_heights_frame:
  assumes "fill_in_heights E start stop step observe name apn h = Some (out, h')"
  shows "length h' = Suc (length h)" and "take (length h) h' = h"
  using fill_in_heights_frame_aux[OF assms] by simp_all

text \<open>
  Claim C9: a call to \<open>fill_in_heights\<close> leaves the caller's observer unchanged. The
  function allocates a copy and moves only the copy's date, so when the call ends, with a
  result or with an exception, the object at the caller's address, like every object that
  existed before the call, has its pre-call contents in every field. The call does return
  its two lists for a positive step and a known body name.
\<close>

theorem fill_in_heights_keeps_observer:
  assumes "observe < length h"
  shows "(\<forall>out h'. fill_in_heights E start stop step observe name apn h = Some (out, h')
            \<longrightarrow> h' ! observe = h ! observe \<and> take (length h) h' = h) \<and>
         (0 < step \<and> body_named E name \<noteq> None \<longrightarrow>
            (\<exists>res h'. fill_in_heights E start stop step observe name apn h = Some (Inr res, h')))"
proof (intro conjI allI impI)
  fix out h'
  assume a: "fill_in_heights E start stop step observe name apn h = Some (out, h')"
  from fill_in_heights_frame(2)[OF a] show t: "take (length h) h' = h" .
  have "h' ! observe = take (length h) h' ! observe" using assms by simp
  then show "h' ! observe = h ! observe" using t by simp
next
  assume "0 < step \<and> body_named E name \<noteq> None"
  then obtain body where "0 < step" "body_named E name = Some body" by auto
  from fill_in_heights_returns[OF this] show
    "\<exists>res h'. fill_in_heights E start stop step observe name apn h = Some (Inr res, h')"
    by blast
qed

theorem fill_in_heights_keeps_observer_witness:
  "(0::nat) < length [origin_observer] \<and> (0::real) < 1
   \<and> body_named sample_ephem ''Sun'' \<noteq> None
   \<and> (\<exists>res h'. fill_in_heights sample_ephem 0 2 1 0 ''Sun'' True [origin_observer]
                   = Some (Inr res, h')
        \<and> h' ! 0 = origin_observer)"
proof -
  note t = fill_in_heights_keeps_observer[of 0 "[origin_observer]" sample_ephem 0 2 1 "''Sun''" True]
  have b: "body_named sample_ephem ''Sun'' \<noteq> None" by (simp add: sample_ephem_def)
  from t b obtain res h' where
    r: "fill_in_heights sample_ephem 0 2 1 0 ''Sun'' True [origin_observer] = Some (Inr res, h')"
    by auto
  with t have "h' ! 0 = origin_observer" by auto
  with r b show ?thesis by auto
qed

section \<open>The altitude series\<close>

lemma marked_append: "marked (xs @ ys) = marked xs @ marked ys"
  by (simp add: marked_def)

lemma pairs_loop_InrD:
  assumes "pairs_loop E step observer name ps h ats ahs = Some (Inr ((ats', ahs'), h'))"
  shows "\<exists>chunks ts. ahs' = ahs @ marked chunks \<and> ats' = ats @ ts
           \<and> length ts = length (marked chunks) \<and> length chunks = length ps
           \<and> (\<forall>c \<in> set chunks. c \<noteq> [] \<and> NaN \<notin> set c)
           \<and> (\<forall>(r, s) \<in> set ps. r < s)
           \<and> length h \<le> length h' \<and> take (length h) h' = h"
  using assms
proof (induction ps arbitrary: h ats ahs)
  case Nil
  then show ?case by (intro exI[of _ "[]"]) (simp add: marked_def)
next
  case (Cons p ps)
  obtain r s where p: "p = (r, s)" by (cases p)
  from Cons.prems p have rs: "r < s" by (auto split: if_splits)
  from Cons.prems p rs obtain ts hs h1 where
    f: "fill_in_heights E r s step observer name True h = Some (Inr (ts, hs), h1)" and
    l: "pairs_loop E step observer name ps h1 (ats @ ts) (ahs @ hs) = Some (Inr ((ats', ahs'), h'))"
    by (auto split: option.splits sum.splits)
  note d = fill_in_heights_InrD[OF f]
  from d(4) obtain c where c: "hs = c @ [NaN]" "c \<noteq> []" "NaN \<notin> set c" by auto
  from Cons.IH[OF l] obtain chunks ts2 where
    i: "ahs' = (ahs @ hs) @ marked chunks" "ats' = (ats @ ts) @ ts2"
      "length ts2 = length (marked chunks)" "length chunks = length ps"
      "\<forall>c \<in> set chunks. c \<noteq> [] \<and> NaN \<notin> set c" "\<forall>(r, s) \<in> set ps. r < s"
      "length h1 \<le> length h'" "take (length h1) h' = h1"
    by blast
  have m: "marked (c # chunks) = hs @ marked chunks" using c(1) by (simp add: marked_def)
  have "take (length h) h' = take (length h) (take (length h1) h')"
    using d(1) by (simp add: min_def)
  then have t: "take (length h) h' = h" using i(8) d(2) by simp
  show ?case
  proof (intro exI[of _ "c # chunks"] exI[of _ "ts @ ts2"] conjI)
    show "ahs' = ahs @ marked (c # chunks)" using i(1) m by simp
    show "ats' = ats @ ts @ ts2" using i(2) by simp
    show "length (ts @ ts2) = length (marked (c # chunks))" using i(3) d(3) m by simp
    show "length (c # chunks) = length (p # ps)" using i(4) by simp
    show "\<forall>c \<in> set (c # chunks). c \<noteq> [] \<and> NaN \<notin> set c" using i(5) c by simp
    show "\<forall>(r, s) \<in> set (p # ps). r < s" using i(6) p rs by simp
    show "length h \<le> length h'" using i(7) d(1) by simp
    show "take (length h) h' = h" by (rule t)
  qed
qed

lemma pairs_loop_returns:
  assumes "0 < step" and "body_named E name = Some body" and "\<forall>(r, s) \<in> set ps. r < s"
  shows "\<exists>ats' ahs' h'. pairs_loop E step observer name ps h ats ahs
           = Some (Inr ((ats', ahs'), h'))"
  using assms(3)
proof (induction ps arbitrary: h ats ahs)
  case Nil
  show ?case by simp
next
  case (Cons p ps)
  obtain r s where p: "p = (r, s)" by (cases p)
  from Cons.prems p have rs: "r < s" by simp
  from fill_in_heights_returns[OF assms(1,2), of r s observer True h] obtain ts hs h1 where
    f: "fill_in_heights E r s step observer name True h = Some (Inr (ts, hs), h1)" by blast
  from Cons.IH[of h1 "ats @ ts" "ahs @ hs"] Cons.prems obtain ats' ahs' h' where
    "pairs_loop E step observer name ps h1 (ats @ ts) (ahs @ hs) = Some (Inr ((ats', ahs'), h'))"
    by auto
  then show ?case using p rs f by simp
qed

lemma map_no_negative_marked:
  "map no_negative (marked chunks) = concat (map (\<lambda>c. map no_negative c @ [NaN]) chunks)"
  by (induction chunks) (simp_all add: marked_def no_negative_def)

lemma no_negative_range: "no_negative x = NaN \<or> (\<exists>v. no_negative x = Finite v \<and> 0 \<le> v)"
  by (cases x) (simp_all add: no_negative_def)

lemma already_risen_InrD:
  assumes "already_risen E begin step observer name rises sets h
             = Some (Inr (((ts1, hs1), sets'), h1))"
  shows "rises \<noteq> []" and "sets \<noteq> []" and "length ts1 = length hs1"
    and "hd sets < hd rises \<Longrightarrow>
           fill_in_heights E begin (hd sets) step observer name True h
             = Some (Inr (ts1, hs1), h1)
           \<and> sets' = drop 1 sets \<and> (\<exists>c. hs1 = marked [c] \<and> c \<noteq> [] \<and> NaN \<notin> set c)"
    and "\<not> hd sets < hd rises \<Longrightarrow> ts1 = [] \<and> hs1 = [] \<and> sets' = sets \<and> h1 = h"
proof -
  from assms obtain s0 ss r0 rr where sr: "sets = s0 # ss" "rises = r0 # rr"
    by (auto simp: already_risen_def split: list.splits)
  then show "rises \<noteq> []" and "sets \<noteq> []" by simp_all
  show n: "\<not> hd sets < hd rises \<Longrightarrow> ts1 = [] \<and> hs1 = [] \<and> sets' = sets \<and> h1 = h"
    using assms sr by (simp add: already_risen_def)
  show y: "fill_in_heights E begin (hd sets) step observer name True h
             = Some (Inr (ts1, hs1), h1)
           \<and> sets' = drop 1 sets \<and> (\<exists>c. hs1 = marked [c] \<and> c \<noteq> [] \<and> NaN \<notin> set c)"
    if lt: "hd sets < hd rises"
  proof -
    from assms sr lt have f: "fill_in_heights E begin (hd sets) step observer name True h
             = Some (Inr (ts1, hs1), h1)" and d: "sets' = drop 1 sets"
      by (auto simp: already_risen_def split: option.splits sum.splits)
    from fill_in_heights_InrD(4)[OF f] obtain c where
      "hs1 = c @ [NaN]" "c \<noteq> []" "NaN \<notin> set c" by auto
    then have "hs1 = marked [c] \<and> c \<noteq> [] \<and> NaN \<notin> set c" by (simp add: marked_def)
    with f d show ?thesis by blast
  qed
  show "length ts1 = length hs1"
  proof (cases "hd sets < hd rises")
    case True
    from fill_in_heights_InrD(3)[OF conjunct1[OF y[OF True]]] show ?thesis .
  next
    case False
    from n[OF False] show ?thesis by simp
  qed
qed

lemma trailing_rise_InrD:
  assumes "trailing_rise E pdT end step observer name rises sets h ats ahs
             = Some (Inr ((ats', ahs'), h'))"
  shows "\<exists>chunks ts. ahs' = ahs @ marked chunks \<and> ats' = ats @ ts
           \<and> length ts = length (marked chunks)
           \<and> length chunks
               = (if length sets < length rises \<and> last rises < pdT end then 1 else 0)
           \<and> (\<forall>c \<in> set chunks. c \<noteq> [] \<and> NaN \<notin> set c)"
proof (cases "length sets < length rises \<and> last rises < pdT end")
  case False
  with assms have "ats' = ats" "ahs' = ahs" by (auto simp: trailing_rise_def)
  then show ?thesis using False by (intro exI[of _ "[]"]) (simp add: marked_def)
next
  case True
  with assms obtain ts hs where
    f: "fill_in_heights E (last rises) end step observer name True h = Some (Inr (ts, hs), h')"
    and r: "ats' = ats @ ts" "ahs' = ahs @ hs"
    by (auto simp: trailing_rise_def split: option.splits sum.splits)
  from fill_in_heights_InrD(4)[OF f] obtain c where
    c: "hs = c @ [NaN]" "c \<noteq> []" "NaN \<notin> set c" by auto
  have m: "marked [c] = hs" using c(1) by (simp add: marked_def)
  show ?thesis
    using True r c(2,3) m fill_in_heights_InrD(3)[OF f]
    by (intro exI[of _ "[c]"] exI[of _ ts]) simp
qed

lemma heights_series_InrD:
  assumes "heights_series E pdT begin end observer name r_n_s h = Some (Inr (series, h'))"
  shows "\<exists>ts1 hs1 sets' h1 ats ahs h2 ats3 ahs3.
           already_risen E begin (10 * ephem_minute) observer name (select_label ''rise'' r_n_s)
               (select_label ''set'' r_n_s) h = Some (Inr (((ts1, hs1), sets'), h1))
         \<and> pairs_loop E (10 * ephem_minute) observer name
               (zip (select_label ''rise'' r_n_s) sets') h1 ts1 hs1 = Some (Inr ((ats, ahs), h2))
         \<and> trailing_rise E pdT end (10 * ephem_minute) observer name
               (select_label ''rise'' r_n_s) sets' h2 ats ahs = Some (Inr ((ats3, ahs3), h'))
         \<and> length ahs3 = length ats3 \<and> series = zip ats3 (map no_negative ahs3)"
  using assms
  by (auto simp: heights_series_def Let_def split: option.splits sum.splits if_splits)

lemma step_positive: "0 < 10 * ephem_minute"
  by (simp add: ephem_minute_def)

lemma already_risen_returns:
  assumes "body_named E name = Some body" and "0 < step" and "rises \<noteq> []" and "sets \<noteq> []"
  shows "\<exists>ts1 hs1 h1. already_risen E begin step observer name rises sets h
           = Some (Inr (((ts1, hs1), if hd sets < hd rises then drop 1 sets else sets), h1))"
proof -
  from assms(3,4) obtain s0 ss r0 rr where sr: "sets = s0 # ss" "rises = r0 # rr"
    by (cases sets; cases rises) auto
  show ?thesis
  proof (cases "s0 < r0")
    case True
    from fill_in_heights_returns[OF assms(2,1), of "begin" s0 observer True h] obtain ts hs h1
      where "fill_in_heights E begin s0 step observer name True h = Some (Inr (ts, hs), h1)"
      by blast
    then show ?thesis using sr True by (simp add: already_risen_def)
  next
    case False
    then show ?thesis using sr by (simp add: already_risen_def)
  qed
qed

lemma trailing_rise_returns:
  assumes "body_named E name = Some body" and "0 < step"
  shows "\<exists>ats' ahs' h'. trailing_rise E pdT end step observer name rises sets h ats ahs
           = Some (Inr ((ats', ahs'), h'))"
proof (cases "length sets < length rises \<and> last rises < pdT end")
  case True
  from fill_in_heights_returns[OF assms(2,1), of "last rises" "end" observer True h]
  obtain ts hs h1 where
    "fill_in_heights E (last rises) end step observer name True h = Some (Inr (ts, hs), h1)"
    by blast
  then show ?thesis using True by (simp add: trailing_rise_def)
next
  case False
  then show ?thesis by (auto simp: trailing_rise_def)
qed

lemma heights_series_returns:
  assumes b: "body_named E name = Some body"
    and ne: "select_label ''rise'' r_n_s \<noteq> []" "select_label ''set'' r_n_s \<noteq> []"
    and lt: "\<forall>(r, s) \<in> set (zip (select_label ''rise'' r_n_s)
               (if hd (select_label ''set'' r_n_s) < hd (select_label ''rise'' r_n_s)
                then drop 1 (select_label ''set'' r_n_s) else select_label ''set'' r_n_s)). r < s"
  shows "\<exists>series h'. heights_series E pdT begin end observer name r_n_s h
           = Some (Inr (series, h'))"
proof -
  let ?step = "10 * ephem_minute"
  let ?rises = "select_label ''rise'' r_n_s" and ?sets = "select_label ''set'' r_n_s"
  let ?sets' = "if hd ?sets < hd ?rises then drop 1 ?sets else ?sets"
  from already_risen_returns[OF b step_positive ne, of "begin" observer h] obtain ts1 hs1 h1 where
    a: "already_risen E begin ?step observer name ?rises ?sets h
          = Some (Inr (((ts1, hs1), ?sets'), h1))" by blast
  from pairs_loop_returns[OF step_positive b lt, of observer h1 ts1 hs1] obtain ats ahs h2 where
    p: "pairs_loop E ?step observer name (zip ?rises ?sets') h1 ts1 hs1
          = Some (Inr ((ats, ahs), h2))" by blast
  from trailing_rise_returns[OF b step_positive, of pdT "end" observer ?rises ?sets' h2 ats ahs]
  obtain ats3 ahs3 h3 where
    t: "trailing_rise E pdT end ?step observer name ?rises ?sets' h2 ats ahs
          = Some (Inr ((ats3, ahs3), h3))" by blast
  have l1: "length ts1 = length hs1" by (rule already_risen_InrD(3)[OF a])
  from pairs_loop_InrD[OF p] l1 have l2: "length ats = length ahs" by auto
  from trailing_rise_InrD[OF t] l2 have l3: "length ats3 = length ahs3" by auto
  show ?thesis
    using a p t l3 by (simp add: heights_series_def Let_def)
qed

text \<open>
  Claim C8: in the altitude series that \<open>heights_series\<close> saves, every height is either
  the no-data marker \<open>NaN\<close> or non-negative, because every negative sample is replaced by
  \<open>NaN\<close>; and the series is the sequence of densified segments, each a non-empty run of
  samples followed by exactly one \<open>NaN\<close> marker. There is one segment for a body risen at
  the start of the year, one for each rise and set pair, and one for a trailing rise. The
  series is produced whenever the body is known, a rise and a set exist, and every paired
  rise is before its set.
\<close>

theorem heights_series_nonnegative_marked:
  "(\<forall>series h'. heights_series E pdT begin end observer name r_n_s h = Some (Inr (series, h')) \<longrightarrow>
      (\<forall>(t, v) \<in> set series. v = NaN \<or> (\<exists>x. v = Finite x \<and> 0 \<le> x)) \<and>
      (\<exists>chunks.
         map snd series = concat (map (\<lambda>c. map no_negative c @ [NaN]) chunks) \<and>
         (\<forall>c \<in> set chunks. c \<noteq> [] \<and> NaN \<notin> set c) \<and>
         length chunks =
           (let rises = select_label ''rise'' r_n_s;
                sets = select_label ''set'' r_n_s;
                risen = (hd sets < hd rises);
                sets' = (if risen then drop 1 sets else sets)
            in (if risen then 1 else 0) + length (zip rises sets')
               + (if length sets' < length rises \<and> last rises < pdT end then 1 else 0)))) \<and>
   (body_named E name \<noteq> None \<and> select_label ''rise'' r_n_s \<noteq> []
      \<and> select_label ''set'' r_n_s \<noteq> []
      \<and> (\<forall>(r, s) \<in> set (zip (select_label ''rise'' r_n_s)
               (if hd (select_label ''set'' r_n_s) < hd (select_label ''rise'' r_n_s)
                then drop 1 (select_label ''set'' r_n_s) else select_label ''set'' r_n_s)). r < s)
      \<longrightarrow> (\<exists>series h'. heights_series E pdT begin end observer name r_n_s h
                          = Some (Inr (series, h'))))"
proof (intro conjI allI impI)
  fix series h'
  assume r: "heights_series E pdT begin end observer name r_n_s h = Some (Inr (series, h'))"
  let ?step = "10 * ephem_minute"
  let ?rises = "select_label ''rise'' r_n_s" and ?sets = "select_label ''set'' r_n_s"
  from heights_series_InrD[OF r] obtain ts1 hs1 sets' h1 ats ahs h2 ats3 ahs3 where
    a: "already_risen E begin ?step observer name ?rises ?sets h
          = Some (Inr (((ts1, hs1), sets'), h1))" and
    p: "pairs_loop E ?step observer name (zip ?rises sets') h1 ts1 hs1
          = Some (Inr ((ats, ahs), h2))" and
    t: "trailing_rise E pdT end ?step observer name ?rises sets' h2 ats ahs
          = Some (Inr ((ats3, ahs3), h'))" and
    l: "length ahs3 = length ats3" and s: "series = zip ats3 (map no_negative ahs3)"
    by blast
  have vals: "map snd series = map no_negative ahs3" using s l by simp
  show "\<forall>(t, v) \<in> set series. v = NaN \<or> (\<exists>x. v = Finite x \<and> 0 \<le> x)"
  proof (clarify)
    fix t v assume "(t, v) \<in> set series" and "\<not> (\<exists>x. v = Finite x \<and> 0 \<le> x)"
    then have "v \<in> set (map snd series)" by force
    then obtain x where "v = no_negative x" using vals by auto
    then show "v = NaN" using no_negative_range[of x] \<open>\<not> (\<exists>x. v = Finite x \<and> 0 \<le> x)\<close> by auto
  qed
  obtain c1 where c1: "hs1 = marked c1" "\<forall>c \<in> set c1. c \<noteq> [] \<and> NaN \<notin> set c"
    "length c1 = (if hd ?sets < hd ?rises then 1 else 0)"
    "sets' = (if hd ?sets < hd ?rises then drop 1 ?sets else ?sets)"
  proof (cases "hd ?sets < hd ?rises")
    case True
    from already_risen_InrD(4)[OF a True] obtain c where
      "hs1 = marked [c]" "c \<noteq> []" "NaN \<notin> set c" "sets' = drop 1 ?sets" by auto
    then show ?thesis using True that[of "[c]"] by simp
  next
    case False
    from already_risen_InrD(5)[OF a False] show ?thesis
      using False that[of "[]"] by (simp add: marked_def)
  qed
  from pairs_loop_InrD[OF p] obtain c2 where c2: "ahs = hs1 @ marked c2"
    "length c2 = length (zip ?rises sets')" "\<forall>c \<in> set c2. c \<noteq> [] \<and> NaN \<notin> set c" by blast
  from trailing_rise_InrD[OF t] obtain c3 where c3: "ahs3 = ahs @ marked c3"
    "length c3 = (if length sets' < length ?rises \<and> last ?rises < pdT end then 1 else 0)"
    "\<forall>c \<in> set c3. c \<noteq> [] \<and> NaN \<notin> set c" by blast
  have all: "ahs3 = marked (c1 @ c2 @ c3)" using c1(1) c2(1) c3(1) by (simp add: marked_append)
  show "\<exists>chunks.
         map snd series = concat (map (\<lambda>c. map no_negative c @ [NaN]) chunks) \<and>
         (\<forall>c \<in> set chunks. c \<noteq> [] \<and> NaN \<notin> set c) \<and>
         length chunks =
           (let rises = select_label ''rise'' r_n_s;
                sets = select_label ''set'' r_n_s;
                risen = (hd sets < hd rises);
                sets' = (if risen then drop 1 sets else sets)
            in (if risen then 1 else 0) + length (zip rises sets')
               + (if length sets' < length rises \<and> last rises < pdT end then 1 else 0))"
  proof (intro exI[of _ "c1 @ c2 @ c3"] conjI)
    show "map snd series = concat (map (\<lambda>c. map no_negative c @ [NaN]) (c1 @ c2 @ c3))"
      using vals all map_no_negative_marked[of "c1 @ c2 @ c3"] by simp
    show "\<forall>c \<in> set (c1 @ c2 @ c3). c \<noteq> [] \<and> NaN \<notin> set c"
      using c1(2) c2(3) c3(3) by auto
    show "length (c1 @ c2 @ c3) =
           (let rises = select_label ''rise'' r_n_s;
                sets = select_label ''set'' r_n_s;
                risen = (hd sets < hd rises);
                sets' = (if risen then drop 1 sets else sets)
            in (if risen then 1 else 0) + length (zip rises sets')
               + (if length sets' < length rises \<and> last rises < pdT end then 1 else 0))"
      using c1(3,4) c2(2) c3(2) by (simp add: Let_def)
  qed
next
  assume "body_named E name \<noteq> None \<and> select_label ''rise'' r_n_s \<noteq> []
      \<and> select_label ''set'' r_n_s \<noteq> []
      \<and> (\<forall>(r, s) \<in> set (zip (select_label ''rise'' r_n_s)
               (if hd (select_label ''set'' r_n_s) < hd (select_label ''rise'' r_n_s)
                then drop 1 (select_label ''set'' r_n_s) else select_label ''set'' r_n_s)). r < s)"
  then show "\<exists>series h'. heights_series E pdT begin end observer name r_n_s h
                          = Some (Inr (series, h'))"
    using heights_series_returns[of E name _ r_n_s pdT "begin" "end" observer h] by auto
qed




theorem heights_series_nonnegative_marked_witness:
  "body_named sample_ephem ''Sun'' \<noteq> None
   \<and> (\<exists>series h' chunks.
         heights_series sample_ephem id 0 365 0 ''Sun'' sample_events [origin_observer]
           = Some (Inr (series, h'))
         \<and> (\<forall>(t, v) \<in> set series. v = NaN \<or> (\<exists>x. v = Finite x \<and> 0 \<le> x))
         \<and> map snd series = concat (map (\<lambda>c. map no_negative c @ [NaN]) chunks)
         \<and> length chunks = 2)"
proof -
  have s: "select_label ''set'' sample_events = [1, 3]"
    and r: "select_label ''rise'' sample_events = [2]"
    by (simp_all add: select_label_def sample_events_def)
  have b: "body_named sample_ephem ''Sun'' \<noteq> None" by (simp add: sample_ephem_def)
  note t = heights_series_nonnegative_marked[of sample_ephem id 0 365 0 "''Sun''" sample_events
      "[origin_observer]"]
  from t s r b obtain series h' where
    e: "heights_series sample_ephem id 0 365 0 ''Sun'' sample_events [origin_observer]
          = Some (Inr (series, h'))" by auto
  from t e have
    v: "\<forall>(t, v) \<in> set series. v = NaN \<or> (\<exists>x. v = Finite x \<and> 0 \<le> x)" by blast
  from t e s r obtain chunks where
    "map snd series = concat (map (\<lambda>c. map no_negative c @ [NaN]) chunks)"
    "length chunks = 2"
    by (auto simp: Let_def)
  with b e v show ?thesis by blast
qed

end
